theory Spec2Isabelle
  imports Main "HOL-Library.Multiset"
begin

section \<open>The fan-out / fan-in dispatcher of the goroutines package\<close>

text \<open>
  The development embeds \<^verbatim>\<open>fan_in_out_fetch\<close>, \<^verbatim>\<open>fanout_fetch\<close> and the consumer loop of
  \<^verbatim>\<open>FanOutFanInWithContext\<close>. The goroutines are modelled by an interleaving
  semantics: the state records the program counter of the aggregator goroutine, of
  every worker goroutine and of the consumer, and an event names which of them moves
  next. Both channels are unbuffered, so a send and its receive are one joint step,
  enabled only when both sides are ready. Timers and the deadline are not given a clock:
  a timer may fire at any moment, and so may the deadline.
\<close>

subsection \<open>The context\<close>

text \<open>
  \<^verbatim>\<open>ctx.Err()\<close> is \<^verbatim>\<open>nil\<close> while \<^verbatim>\<open>ctx.Done()\<close> is open and one of the two errors of
  package \<^verbatim>\<open>context\<close> once it is closed. The field \<open>ctx\<close> of the state is \<open>None\<close> for an
  open \<^verbatim>\<open>Done\<close> channel.
\<close>

datatype ctx_err = DeadlineExceeded | Canceled

fun err_string :: "ctx_err \<Rightarrow> string" where
  "err_string DeadlineExceeded = ''context deadline exceeded''"
| "err_string Canceled = ''context canceled''"

subsection \<open>Program counters and state\<close>

text \<open>
  A worker goroutine (lines 96 to 103) is in the \<^verbatim>\<open>select\<close> of \<^verbatim>\<open>fan_in_out_fetch\<close>
  (\<open>Fetching\<close>), blocked in \<^verbatim>\<open>resultCh <- data\<close> (\<open>Sending data\<close>), returned after its send
  (\<open>Done\<close>), or returned at line 100 after printing the error (\<open>Failed err\<close>).
\<close>

datatype wpc = Fetching | Sending string | Done | Failed ctx_err

text \<open>
  The aggregator goroutine (lines 90 to 116) is in the fan-out loop with the urls still to
  range over (\<open>FanOut rest\<close>), at the head of the fan-in loop with counter \<open>i\<close>
  (\<open>FanIn i\<close>), blocked in \<^verbatim>\<open>out <- result\<close> (\<open>Forward i result\<close>), or returned.
\<close>

datatype apc = FanOut "string list" | FanIn nat | Forward nat string | Returned

text \<open>
  The consumer of \<^verbatim>\<open>out\<close> (lines 137 to 139) is blocked in the receive of its
  \<^verbatim>\<open>range\<close> loop (\<open>Receiving\<close>) or about to print the value it has received
  (\<open>Printing data\<close>). \<open>Absent\<close> is a caller that has stopped receiving from \<^verbatim>\<open>out\<close>; the
  loop of \<^verbatim>\<open>FanOutFanInWithContext\<close> never does.
\<close>

datatype cpc = Receiving | Printing string | Absent

text \<open>
  \<open>out\<close> lists the values the consumer has received from the channel \<^verbatim>\<open>out\<close>, oldest
  first; \<open>closes\<close> counts the executions of \<^verbatim>\<open>close(out)\<close>; \<open>stdout\<close> lists the printed
  lines.
\<close>

record state =
  urls :: "string list"
  ctx :: "ctx_err option"
  agg :: apc
  workers :: "(string \<times> wpc) list"
  out :: "string list"
  closes :: nat
  stdout :: "string list"
  consumer :: cpc

subsection \<open>The work function\<close>

text \<open>
  \<^verbatim>\<open>fan_in_out_fetch\<close> returns through one of the two cases of its \<^verbatim>\<open>select\<close>. The
  result is \<open>None\<close> when the chosen case is not ready (the \<^verbatim>\<open>Done\<close> channel is still open);
  the timer case is ready whenever the scheduler says the delay has elapsed.
\<close>

datatype fetch_case = AfterDelay | CtxDone

definition payload :: "string \<Rightarrow> string" where
  "payload url = ''Data from '' @ url"

fun fan_in_out_fetch :: "ctx_err option \<Rightarrow> fetch_case \<Rightarrow> string \<Rightarrow> (ctx_err + string) option" where
  "fan_in_out_fetch c AfterDelay url = Some (Inr (payload url))"
| "fan_in_out_fetch None CtxDone url = None"
| "fan_in_out_fetch (Some e) CtxDone url = Some (Inl e)"

subsection \<open>Events and steps\<close>

text \<open>
  Two events belong to the environment. \<open>Trigger e\<close> is the deadline timer of
  \<^verbatim>\<open>context.WithTimeout\<close> firing (\<open>DeadlineExceeded\<close>) or a call of the \<^verbatim>\<open>cancel\<close>
  function (\<open>Canceled\<close>), such as the deferred one of \<^verbatim>\<open>FanOutFanInWithContext\<close>.
  \<open>Abandon\<close> is the caller giving up receiving from \<^verbatim>\<open>out\<close>. Every other event is a step
  of the program: \<open>Print\<close> is the consumer's, \<open>Deliver\<close> is the joint step of the
  aggregator's send on \<^verbatim>\<open>out\<close> and the consumer's receive, and the rest are steps of the
  aggregator and the workers.
\<close>

datatype event =
    Trigger ctx_err
  | Abandon
  | Spawn
  | FanOutEnd
  | FetchReturns nat fetch_case
  | Recv nat
  | AggCtxDone
  | Deliver
  | LoopEnd
  | Print

fun is_program_step :: "event \<Rightarrow> bool" where
  "is_program_step (Trigger e) = False"
| "is_program_step Abandon = False"
| "is_program_step _ = True"

text \<open>The steps in which a goroutine started by \<^verbatim>\<open>fanout_fetch\<close> takes part.\<close>

fun is_dispatcher_step :: "event \<Rightarrow> bool" where
  "is_dispatcher_step (Trigger e) = False"
| "is_dispatcher_step Abandon = False"
| "is_dispatcher_step Print = False"
| "is_dispatcher_step _ = True"


text \<open>
  Only the first trigger closes \<^verbatim>\<open>Done\<close> and sets the error (package \<^verbatim>\<open>context\<close>: after
  the first call, later calls of a \<^verbatim>\<open>CancelFunc\<close> do nothing).
\<close>

definition cancel :: "ctx_err \<Rightarrow> state \<Rightarrow> state" where
  "cancel e s = (case ctx s of None \<Rightarrow> s\<lparr>ctx := Some e\<rparr> | Some _ \<Rightarrow> s)"

text \<open>Lines 96 to 103: what the worker does once \<^verbatim>\<open>fan_in_out_fetch\<close> has returned.\<close>

fun worker_after_fetch :: "nat \<Rightarrow> string \<Rightarrow> ctx_err + string \<Rightarrow> state \<Rightarrow> state" where
  "worker_after_fetch i u (Inl err) s =
     s\<lparr>workers := (workers s)[i := (u, Failed err)],
       stdout := stdout s @ [''error: '' @ err_string err]\<rparr>"
| "worker_after_fetch i u (Inr data) s =
     s\<lparr>workers := (workers s)[i := (u, Sending data)]\<rparr>"

fun step :: "event \<Rightarrow> state \<Rightarrow> state option" where
  "step (Trigger e) s = Some (cancel e s)"
| "step Abandon s = Some (s\<lparr>consumer := Absent\<rparr>)"
| "step Spawn s =
     (case agg s of
        FanOut rest \<Rightarrow>
          (case rest of
             [] \<Rightarrow> None
           | u # rest' \<Rightarrow> Some (s\<lparr>agg := FanOut rest', workers := workers s @ [(u, Fetching)]\<rparr>))
      | _ \<Rightarrow> None)"
| "step FanOutEnd s =
     (case agg s of
        FanOut rest \<Rightarrow> (case rest of [] \<Rightarrow> Some (s\<lparr>agg := FanIn 0\<rparr>) | _ # _ \<Rightarrow> None)
      | _ \<Rightarrow> None)"
| "step (FetchReturns i c) s =
     (if i < length (workers s) then
        (case snd (workers s ! i) of
           Fetching \<Rightarrow>
             (case fan_in_out_fetch (ctx s) c (fst (workers s ! i)) of
                None \<Rightarrow> None
              | Some r \<Rightarrow> Some (worker_after_fetch i (fst (workers s ! i)) r s))
         | _ \<Rightarrow> None)
      else None)"
| "step (Recv i) s =
     (case agg s of
        FanIn j \<Rightarrow>
          (if j < length (urls s) \<and> i < length (workers s) then
             (case snd (workers s ! i) of
                Sending data \<Rightarrow>
                  Some (s\<lparr>agg := Forward j data,
                          workers := (workers s)[i := (fst (workers s ! i), Done)]\<rparr>)
              | _ \<Rightarrow> None)
           else None)
      | _ \<Rightarrow> None)"
| "step AggCtxDone s =
     (case agg s of
        FanIn j \<Rightarrow>
          (if j < length (urls s) then
             (case ctx s of
                None \<Rightarrow> None
              | Some err \<Rightarrow>
                  Some (s\<lparr>agg := Returned, closes := closes s + 1,
                          stdout := stdout s @ [''Cancelled: '' @ err_string err]\<rparr>))
           else None)
      | _ \<Rightarrow> None)"
| "step Deliver s =
     (case agg s of
        Forward j result \<Rightarrow>
          (case consumer s of
             Receiving \<Rightarrow>
               Some (s\<lparr>agg := FanIn (j + 1), out := out s @ [result],
                       consumer := Printing result\<rparr>)
           | _ \<Rightarrow> None)
      | _ \<Rightarrow> None)"
| "step LoopEnd s =
     (case agg s of
        FanIn j \<Rightarrow>
          (if j < length (urls s) then None
           else Some (s\<lparr>agg := Returned, closes := closes s + 1\<rparr>))
      | _ \<Rightarrow> None)"
| "step Print s =
     (case consumer s of
        Printing data \<Rightarrow>
          Some (s\<lparr>consumer := Receiving, stdout := stdout s @ [''Result: '' @ data]\<rparr>)
      | _ \<Rightarrow> None)"

text \<open>A schedule is a list of events; it runs while each event is enabled.\<close>

fun run :: "event list \<Rightarrow> state \<Rightarrow> state option" where
  "run [] s = Some s"
| "run (e # es) s = (case step e s of None \<Rightarrow> None | Some s' \<Rightarrow> run es s')"

text \<open>
  The state right after \<^verbatim>\<open>fanout_fetch(ctx, urls)\<close> has returned \<^verbatim>\<open>out\<close>: the aggregator
  goroutine is started and about to range over \<^verbatim>\<open>urls\<close>, and the caller is about to
  receive from \<^verbatim>\<open>out\<close>.
\<close>

definition fanout_fetch :: "ctx_err option \<Rightarrow> string list \<Rightarrow> state" where
  "fanout_fetch c us =
     \<lparr>urls = us, ctx = c, agg = FanOut us, workers = [], out = [], closes = 0, stdout = [],
      consumer = Receiving\<rparr>"

text \<open>
  The workers whose results the aggregator has received on \<^verbatim>\<open>resultCh\<close>, in the order
  of a schedule's receives. Worker \<open>i\<close> is the goroutine started for the url at index \<open>i\<close>.
\<close>

fun handoffs :: "event list \<Rightarrow> nat list" where
  "handoffs [] = []"
| "handoffs (Recv i # es) = i # handoffs es"
| "handoffs (e # es) = handoffs es"

text \<open>The goroutines of the dispatch that have not returned.\<close>

fun running :: "wpc \<Rightarrow> bool" where
  "running Fetching = True"
| "running (Sending d) = True"
| "running Done = False"
| "running (Failed e) = False"

definition live_goroutines :: "state \<Rightarrow> nat" where
  "live_goroutines s =
     (if agg s = Returned then 0 else 1) + length (filter running (map snd (workers s)))"

subsection \<open>Auxiliary functions for the proofs\<close>

text \<open>The payloads of the workers that have completed their send on \<^verbatim>\<open>resultCh\<close>.\<close>

fun handed_over :: "(string \<times> wpc) list \<Rightarrow> string list" where
  "handed_over [] = []"
| "handed_over (w # ws) = (if snd w = Done then payload (fst w) # handed_over ws else handed_over ws)"

text \<open>The result the aggregator holds between its receive and its send.\<close>

fun in_flight :: "apc \<Rightarrow> string list" where
  "in_flight (Forward j result) = [result]"
| "in_flight _ = []"

text \<open>The urls the fan-out loop has not reached yet.\<close>

fun unspawned :: "apc \<Rightarrow> string list" where
  "unspawned (FanOut rest) = rest"
| "unspawned _ = []"

text \<open>
  A worker blocked in its send holds the payload of its own url, and a worker has failed
  only if the context is done.
\<close>

fun wf_worker :: "ctx_err option \<Rightarrow> string \<times> wpc \<Rightarrow> bool" where
  "wf_worker c (u, Sending d) = (d = payload u)"
| "wf_worker c (u, Failed e) = (c \<noteq> None)"
| "wf_worker c (u, _) = True"

text \<open>What the aggregator's program counter says about the loop counter and the stream.\<close>

fun wf_agg :: "state \<Rightarrow> apc \<Rightarrow> bool" where
  "wf_agg s (FanOut rest) = (out s = [] \<and> closes s = 0)"
| "wf_agg s (FanIn j) = (j = length (out s) \<and> closes s = 0)"
| "wf_agg s (Forward j result) = (j = length (out s) \<and> j < length (urls s) \<and> closes s = 0)"
| "wf_agg s Returned = (closes s = 1 \<and> (ctx s = None \<longrightarrow> length (urls s) \<le> length (out s)))"

definition invariant :: "state \<Rightarrow> bool" where
  "invariant s \<longleftrightarrow>
     urls s = map fst (workers s) @ unspawned (agg s) \<and>
     list_all (wf_worker (ctx s)) (workers s) \<and>
     mset (out s) + mset (in_flight (agg s)) = mset (handed_over (workers s)) \<and>
     wf_agg s (agg s)"

text \<open>
  A bound on the steps of the aggregator and the workers still possible: each of them
  lowers it.
\<close>

fun wpc_fuel :: "wpc \<Rightarrow> nat" where
  "wpc_fuel Fetching = 2"
| "wpc_fuel (Sending d) = 1"
| "wpc_fuel Done = 0"
| "wpc_fuel (Failed e) = 0"

fun workers_fuel :: "(string \<times> wpc) list \<Rightarrow> nat" where
  "workers_fuel [] = 0"
| "workers_fuel (w # ws) = wpc_fuel (snd w) + workers_fuel ws"

fun apc_fuel :: "nat \<Rightarrow> apc \<Rightarrow> nat" where
  "apc_fuel n (FanOut rest) = 3 * length rest + n + 2"
| "apc_fuel n (FanIn j) = 1 + (n - j)"
| "apc_fuel n (Forward j result) = 2 + (n - Suc j)"
| "apc_fuel n Returned = 0"

definition fuel :: "state \<Rightarrow> nat" where
  "fuel s = apc_fuel (length (urls s)) (agg s) + workers_fuel (workers s)"

text \<open>The sends on \<^verbatim>\<open>out\<close> still possible, each followed by a print of the consumer.\<close>

fun apc_sends :: "nat \<Rightarrow> apc \<Rightarrow> nat" where
  "apc_sends n (FanOut rest) = n"
| "apc_sends n (FanIn j) = n - j"
| "apc_sends n (Forward j result) = Suc (n - Suc j)"
| "apc_sends n Returned = 0"

fun cpc_fuel :: "cpc \<Rightarrow> nat" where
  "cpc_fuel Receiving = 0"
| "cpc_fuel (Printing d) = 1"
| "cpc_fuel Absent = 0"

definition total_fuel :: "state \<Rightarrow> nat" where
  "total_fuel s = fuel s + apc_sends (length (urls s)) (agg s) + cpc_fuel (consumer s)"

section \<open>Cancellation\<close>

lemma cancel_cancel: "cancel e2 (cancel e1 s) = cancel e1 s"
  by (simp add: cancel_def split: option.splits)

lemma cancel_noop: "ctx s = Some err \<Longrightarrow> cancel e s = s"
  by (simp add: cancel_def)

lemma ctx_cancel: "\<exists>err. ctx (cancel e s) = Some err"
  by (simp add: cancel_def split: option.splits)

lemma worker_after_fetch_ctx [simp]: "ctx (worker_after_fetch i u r s) = ctx s"
  by (cases r) simp_all

text \<open>Only a trigger touches the context, and a done context stays as it is.\<close>

lemma step_ctx_kept:
  assumes "step e s = Some s'" and "ctx s = Some err"
  shows "ctx s' = Some err"
  using assms
  by (cases e)
     (auto simp: cancel_def
        split: apc.splits list.splits wpc.splits cpc.splits option.splits if_splits)

lemma run_skip_trigger:
  "ctx s = Some err \<Longrightarrow> run (pre @ Trigger e # post) s = run (pre @ post) s"
proof (induction pre arbitrary: s)
  case Nil
  then show ?case by (simp add: cancel_noop)
next
  case (Cons a pre)
  show ?case
  proof (cases "step a s")
    case None
    then show ?thesis by simp
  next
    case (Some s')
    from step_ctx_kept [OF Some Cons.prems] have "ctx s' = Some err" .
    from Cons.IH [OF this] Some show ?thesis by simp
  qed
qed

text \<open>
  Claim C8. Triggering cancellation a second time changes nothing: the state after two
  triggers in a row is the state after the first, and in every schedule a second trigger
  (the deadline, or a call of the cancel function) placed anywhere after a first one can
  be dropped without changing the outcome of the schedule, that is the output stream, the
  workers, the aggregator and the printed lines.
\<close>

theorem cancellation_idempotent:
  "cancel e2 (cancel e1 s) = cancel e1 s \<and>
   run (Trigger e1 # pre @ Trigger e2 # post) s = run (Trigger e1 # pre @ post) s"
proof -
  obtain err where "ctx (cancel e1 s) = Some err"
    using ctx_cancel by blast
  from run_skip_trigger [OF this] show ?thesis
    by (simp add: cancel_cancel)
qed

section \<open>An invariant of the dispatch\<close>

lemma list_all_update:
  "list_all P xs \<Longrightarrow> P v \<Longrightarrow> list_all P (xs[i := v])"
  by (induction xs arbitrary: i) (auto split: nat.splits)

lemma handed_over_append [simp]:
  "handed_over (ws @ vs) = handed_over ws @ handed_over vs"
  by (induction ws) auto

lemma handed_over_update_other:
  "i < length ws \<Longrightarrow> snd (ws ! i) \<noteq> Done \<Longrightarrow> pc \<noteq> Done \<Longrightarrow>
   handed_over (ws[i := (u, pc)]) = handed_over ws"
  by (induction ws arbitrary: i) (auto split: nat.splits)

lemma handed_over_update_Done:
  "i < length ws \<Longrightarrow> snd (ws ! i) \<noteq> Done \<Longrightarrow>
   mset (handed_over (ws[i := (u, Done)])) = add_mset (payload u) (mset (handed_over ws))"
  by (induction ws arbitrary: i) (auto split: nat.splits)

lemma map_fst_update:
  "i < length ws \<Longrightarrow> map fst (ws[i := (fst (ws ! i), pc)]) = map fst ws"
  by (induction ws arbitrary: i) (auto split: nat.splits)

lemma wf_worker_ctx_mono:
  "wf_worker c w \<Longrightarrow> wf_worker (Some e) w"
  by (cases "(c, w)" rule: wf_worker.cases) auto

lemma list_all_wf_worker_mono:
  "list_all (wf_worker c) ws \<Longrightarrow> list_all (wf_worker (Some e)) ws"
  by (induction ws) (auto intro: wf_worker_ctx_mono)

lemma invariant_init: "invariant (fanout_fetch c us)"
  by (simp add: invariant_def fanout_fetch_def)

lemma invariant_cancel: "invariant s \<Longrightarrow> invariant (cancel e s)"
  by (cases "agg s") (auto simp: invariant_def cancel_def list_all_wf_worker_mono split: option.splits)

lemma invariant_Spawn: "invariant s \<Longrightarrow> step Spawn s = Some s' \<Longrightarrow> invariant s'"
  by (auto simp: invariant_def split: apc.splits list.splits)

lemma invariant_FanOutEnd: "invariant s \<Longrightarrow> step FanOutEnd s = Some s' \<Longrightarrow> invariant s'"
  by (auto simp: invariant_def split: apc.splits list.splits)

lemma invariant_Deliver: "invariant s \<Longrightarrow> step Deliver s = Some s' \<Longrightarrow> invariant s'"
  by (auto simp: invariant_def split: apc.splits cpc.splits)

lemma invariant_Print: "invariant s \<Longrightarrow> step Print s = Some s' \<Longrightarrow> invariant s'"
  by (cases "agg s") (auto simp: invariant_def split: cpc.splits)

lemma invariant_Abandon: "invariant s \<Longrightarrow> step Abandon s = Some s' \<Longrightarrow> invariant s'"
  by (cases "agg s") (auto simp: invariant_def)

lemma invariant_LoopEnd: "invariant s \<Longrightarrow> step LoopEnd s = Some s' \<Longrightarrow> invariant s'"
  by (auto simp: invariant_def split: apc.splits list.splits if_splits)

lemma invariant_AggCtxDone: "invariant s \<Longrightarrow> step AggCtxDone s = Some s' \<Longrightarrow> invariant s'"
  by (auto simp: invariant_def split: apc.splits list.splits if_splits option.splits)

lemma invariant_FetchReturns:
  assumes "invariant s" and "step (FetchReturns i c) s = Some s'"
  shows "invariant s'"
proof -
  from assms(2) have i: "i < length (workers s)" and pc: "snd (workers s ! i) = Fetching"
    by (auto split: if_splits wpc.splits)
  from assms(2) i pc obtain r where
    r: "fan_in_out_fetch (ctx s) c (fst (workers s ! i)) = Some r"
    and s': "s' = worker_after_fetch i (fst (workers s ! i)) r s"
    by (auto split: option.splits)
  show ?thesis
  proof (cases r)
    case (Inl err)
    with r have "ctx s \<noteq> None"
      by (cases "(ctx s, c, fst (workers s ! i))" rule: fan_in_out_fetch.cases) auto
    with assms(1) Inl s' i pc show ?thesis
      by (cases "agg s")
         (auto simp: invariant_def list_all_update handed_over_update_other map_fst_update)
  next
    case (Inr d)
    with r have "d = payload (fst (workers s ! i))"
      by (cases "(ctx s, c, fst (workers s ! i))" rule: fan_in_out_fetch.cases) auto
    with assms(1) Inr s' i pc show ?thesis
      by (cases "agg s")
         (auto simp: invariant_def list_all_update handed_over_update_other map_fst_update)
  qed
qed

lemma list_all_nth: "list_all P xs \<Longrightarrow> i < length xs \<Longrightarrow> P (xs ! i)"
  by (simp add: list_all_length)

lemma invariant_Recv:
  assumes "invariant s" and "step (Recv i) s = Some s'"
  shows "invariant s'"
proof -
  from assms(2) obtain j d where
    a: "agg s = FanIn j" and j: "j < length (urls s)" and i: "i < length (workers s)"
    and pc: "snd (workers s ! i) = Sending d"
    and s': "s' = s\<lparr>agg := Forward j d, workers := (workers s)[i := (fst (workers s ! i), Done)]\<rparr>"
    by (auto split: apc.splits if_splits wpc.splits)
  from assms(1) i have "wf_worker (ctx s) (workers s ! i)"
    by (simp add: invariant_def list_all_nth)
  with pc have d: "d = payload (fst (workers s ! i))"
    by (cases "workers s ! i") simp
  from assms(1) a j i pc s' d show ?thesis
    by (simp add: invariant_def list_all_update handed_over_update_Done map_fst_update)
qed

lemma invariant_step:
  assumes "invariant s" and "step e s = Some s'"
  shows "invariant s'"
proof (cases e)
  case (Trigger err)
  with assms show ?thesis by (auto intro: invariant_cancel)
next
  case Spawn
  with assms show ?thesis by (blast intro: invariant_Spawn)
next
  case FanOutEnd
  with assms show ?thesis by (blast intro: invariant_FanOutEnd)
next
  case (FetchReturns i c)
  with assms show ?thesis by (blast intro: invariant_FetchReturns)
next
  case (Recv i)
  with assms show ?thesis by (blast intro: invariant_Recv)
next
  case AggCtxDone
  with assms show ?thesis by (blast intro: invariant_AggCtxDone)
next
  case Deliver
  with assms show ?thesis by (blast intro: invariant_Deliver)
next
  case LoopEnd
  with assms show ?thesis by (blast intro: invariant_LoopEnd)
next
  case Print
  with assms show ?thesis by (blast intro: invariant_Print)
next
  case Abandon
  with assms show ?thesis by (blast intro: invariant_Abandon)
qed

lemma invariant_run: "invariant s \<Longrightarrow> run sched s = Some s' \<Longrightarrow> invariant s'"
  by (induction sched arbitrary: s) (auto split: option.splits intro: invariant_step simp del: step.simps)

lemma reachable_invariant: "run sched (fanout_fetch c us) = Some s \<Longrightarrow> invariant s"
  using invariant_run [OF invariant_init] .

section \<open>Termination: every step of the program uses up fuel\<close>

lemma workers_fuel_append [simp]:
  "workers_fuel (ws @ vs) = workers_fuel ws + workers_fuel vs"
  by (induction ws) auto

lemma workers_fuel_update:
  "i < length ws \<Longrightarrow> wpc_fuel pc < wpc_fuel (snd (ws ! i)) \<Longrightarrow>
   workers_fuel (ws[i := (u, pc)]) < workers_fuel ws"
  by (induction ws arbitrary: i) (auto split: nat.splits)

lemma worker_after_fetch_urls [simp]: "urls (worker_after_fetch i u r s) = urls s"
  by (cases r) simp_all

lemma worker_after_fetch_agg [simp]: "agg (worker_after_fetch i u r s) = agg s"
  by (cases r) simp_all

lemma worker_after_fetch_out [simp]: "out (worker_after_fetch i u r s) = out s"
  by (cases r) simp_all

lemma worker_after_fetch_closes [simp]: "closes (worker_after_fetch i u r s) = closes s"
  by (cases r) simp_all

lemma worker_after_fetch_fuel:
  "i < length (workers s) \<Longrightarrow> snd (workers s ! i) = Fetching \<Longrightarrow>
   workers_fuel (workers (worker_after_fetch i u r s)) < workers_fuel (workers s)"
  by (cases r) (simp_all add: workers_fuel_update)

lemma worker_after_fetch_consumer [simp]: "consumer (worker_after_fetch i u r s) = consumer s"
  by (cases r) simp_all

lemma step_urls: "step e s = Some s' \<Longrightarrow> urls s' = urls s"
  by (cases e)
     (auto simp: cancel_def
        split: apc.splits list.splits wpc.splits cpc.splits option.splits if_splits)

lemma fuel_cancel [simp]: "fuel (cancel e s) = fuel s"
  by (simp add: fuel_def cancel_def split: option.splits)

lemma step_FetchReturnsE:
  assumes "step (FetchReturns i c) s = Some s'"
  obtains r where "i < length (workers s)" and "snd (workers s ! i) = Fetching"
    and "s' = worker_after_fetch i (fst (workers s ! i)) r s"
  using assms by (auto split: if_splits wpc.splits option.splits)

lemma step_RecvE:
  assumes "step (Recv i) s = Some s'"
  obtains j d where "agg s = FanIn j" and "j < length (urls s)"
    and "i < length (workers s)" and "snd (workers s ! i) = Sending d"
    and "s' = s\<lparr>agg := Forward j d, workers := (workers s)[i := (fst (workers s ! i), Done)]\<rparr>"
  using assms by (auto split: apc.splits if_splits wpc.splits)

lemma step_DeliverE:
  assumes "step Deliver s = Some s'"
  obtains j d where "agg s = Forward j d" and "consumer s = Receiving"
    and "s' = s\<lparr>agg := FanIn (j + 1), out := out s @ [d], consumer := Printing d\<rparr>"
  using assms by (auto split: apc.splits cpc.splits)

lemma step_fuel:
  assumes "step e s = Some s'" and "is_dispatcher_step e"
  shows "fuel s' < fuel s"
proof (cases e)
  case (FetchReturns i c)
  with assms(1) have "step (FetchReturns i c) s = Some s'" by simp
  then obtain r where i: "i < length (workers s)" and pc: "snd (workers s ! i) = Fetching"
    and s': "s' = worker_after_fetch i (fst (workers s ! i)) r s"
    by (rule step_FetchReturnsE)
  from worker_after_fetch_fuel [OF i pc] s' show ?thesis
    by (simp add: fuel_def)
next
  case (Recv i)
  with assms(1) have "step (Recv i) s = Some s'" by simp
  then obtain j d where a: "agg s = FanIn j" and j: "j < length (urls s)"
    and i: "i < length (workers s)" and pc: "snd (workers s ! i) = Sending d"
    and s': "s' = s\<lparr>agg := Forward j d, workers := (workers s)[i := (fst (workers s ! i), Done)]\<rparr>"
    by (rule step_RecvE)
  from pc have "wpc_fuel Done < wpc_fuel (snd (workers s ! i))" by simp
  from workers_fuel_update [OF i this]
  have "workers_fuel ((workers s)[i := (fst (workers s ! i), Done)]) < workers_fuel (workers s)" .
  with a j s' show ?thesis
    by (simp add: fuel_def Suc_diff_Suc)
next
  case Deliver
  with assms(1) show ?thesis
    by (auto simp: fuel_def split: apc.splits cpc.splits)
qed (use assms in \<open>auto simp: fuel_def split: apc.splits list.splits if_splits option.splits\<close>)

lemma step_fuel_other:
  assumes "step e s = Some s'" and "\<not> is_dispatcher_step e"
  shows "fuel s' = fuel s"
  using assms by (cases e) (auto simp: fuel_def cancel_def split: cpc.splits option.splits)

lemma run_fuel:
  "run sched s = Some s' \<Longrightarrow> length (filter is_dispatcher_step sched) + fuel s' \<le> fuel s"
proof (induction sched arbitrary: s)
  case Nil
  then show ?case by simp
next
  case (Cons e es)
  then obtain s1 where s1: "step e s = Some s1" and r: "run es s1 = Some s'"
    by (auto split: option.splits)
  from Cons.IH [OF r] have ih: "length (filter is_dispatcher_step es) + fuel s' \<le> fuel s1" .
  show ?case
  proof (cases "is_dispatcher_step e")
    case True
    from step_fuel [OF s1 True] ih True show ?thesis by simp
  next
    case False
    from step_fuel_other [OF s1 False] ih False show ?thesis by simp
  qed
qed

text \<open>The same for all steps of the program, the prints of the consumer included.\<close>

lemma step_total_fuel:
  assumes "step e s = Some s'" and "is_program_step e"
  shows "total_fuel s' < total_fuel s"
proof (cases e)
  case (FetchReturns i c)
  with assms(1) have "step (FetchReturns i c) s = Some s'" by simp
  then obtain r where i: "i < length (workers s)" and pc: "snd (workers s ! i) = Fetching"
    and s': "s' = worker_after_fetch i (fst (workers s ! i)) r s"
    by (rule step_FetchReturnsE)
  from worker_after_fetch_fuel [OF i pc] s' show ?thesis
    by (simp add: total_fuel_def fuel_def)
next
  case (Recv i)
  with assms(1) have "step (Recv i) s = Some s'" by simp
  then obtain j d where a: "agg s = FanIn j" and j: "j < length (urls s)"
    and i: "i < length (workers s)" and pc: "snd (workers s ! i) = Sending d"
    and s': "s' = s\<lparr>agg := Forward j d, workers := (workers s)[i := (fst (workers s ! i), Done)]\<rparr>"
    by (rule step_RecvE)
  from pc have "wpc_fuel Done < wpc_fuel (snd (workers s ! i))" by simp
  from workers_fuel_update [OF i this]
  have "workers_fuel ((workers s)[i := (fst (workers s ! i), Done)]) < workers_fuel (workers s)" .
  with a j s' show ?thesis
    by (simp add: total_fuel_def fuel_def Suc_diff_Suc)
next
  case Deliver
  with assms(1) show ?thesis
    by (auto simp: total_fuel_def fuel_def split: apc.splits cpc.splits)
next
  case Print
  with assms(1) show ?thesis
    by (auto simp: total_fuel_def fuel_def split: cpc.splits)
qed (use assms in \<open>auto simp: total_fuel_def fuel_def
       split: apc.splits list.splits if_splits option.splits\<close>)

lemma step_total_fuel_other:
  assumes "step e s = Some s'" and "\<not> is_program_step e"
  shows "total_fuel s' \<le> total_fuel s"
  using assms by (cases e) (auto simp: total_fuel_def fuel_def cancel_def split: option.splits)

lemma run_total_fuel:
  "run sched s = Some s' \<Longrightarrow>
   length (filter is_program_step sched) + total_fuel s' \<le> total_fuel s"
proof (induction sched arbitrary: s)
  case Nil
  then show ?case by simp
next
  case (Cons e es)
  then obtain s1 where s1: "step e s = Some s1" and r: "run es s1 = Some s'"
    by (auto split: option.splits)
  from Cons.IH [OF r]
  have ih: "length (filter is_program_step es) + total_fuel s' \<le> total_fuel s1" .
  show ?case
  proof (cases "is_program_step e")
    case True
    from step_total_fuel [OF s1 True] ih True show ?thesis by simp
  next
    case False
    from step_total_fuel_other [OF s1 False] ih False show ?thesis by simp
  qed
qed

lemma total_fuel_init: "total_fuel (fanout_fetch c us) = 5 * length us + 2"
  by (simp add: total_fuel_def fuel_def fanout_fetch_def)

lemma fuel_init: "fuel (fanout_fetch c us) = 4 * length us + 2"
  by (simp add: fuel_def fanout_fetch_def)

lemma length_handed_over: "length (handed_over ws) \<le> length ws"
  by (induction ws) auto

lemma handed_over_all:
  "length ws \<le> length (handed_over ws) \<Longrightarrow> handed_over ws = map payload (map fst ws)"
proof (induction ws)
  case Nil
  then show ?case by simp
next
  case (Cons w ws)
  from length_handed_over [of ws] Cons.prems have "snd w = Done"
    by (auto split: if_splits)
  with Cons show ?case by simp
qed

lemma handed_over_missing:
  "length (handed_over ws) < length ws \<Longrightarrow> \<exists>i<length ws. snd (ws ! i) \<noteq> Done"
proof (induction ws)
  case Nil
  then show ?case by simp
next
  case (Cons w ws)
  show ?case
  proof (cases "snd w = Done")
    case True
    with Cons obtain i where "i < length ws" "snd (ws ! i) \<noteq> Done" by auto
    then have "Suc i < length (w # ws) \<and> snd ((w # ws) ! Suc i) \<noteq> Done" by simp
    then show ?thesis by blast
  next
    case False
    then have "0 < length (w # ws) \<and> snd ((w # ws) ! 0) \<noteq> Done" by simp
    then show ?thesis by blast
  qed
qed

lemma subset_add_mset: "A \<subseteq># B \<Longrightarrow> A \<subseteq># add_mset x B"
  by (auto simp: subseteq_mset_def le_SucI)

lemma mset_handed_over_subset:
  "mset (handed_over ws) \<subseteq># mset (map payload (map fst ws))"
proof (induction ws)
  case Nil
  then show ?case by simp
next
  case (Cons w ws)
  from subset_add_mset [OF Cons.IH, of "payload (fst w)"] Cons.IH show ?case
    by simp
qed

section \<open>Consequences of the invariant\<close>

lemma run_urls: "run sched s = Some s' \<Longrightarrow> urls s' = urls s"
proof (induction sched arbitrary: s)
  case Nil
  then show ?case by simp
next
  case (Cons e es)
  then obtain s1 where s1: "step e s = Some s1" and r: "run es s1 = Some s'"
    by (auto split: option.splits)
  from Cons.IH [OF r] step_urls [OF s1] show ?case by simp
qed

lemma reachable_urls: "run sched (fanout_fetch c us) = Some s \<Longrightarrow> urls s = us"
  using run_urls [of sched "fanout_fetch c us" s] by (simp add: fanout_fetch_def)

lemma invariant_length_out:
  assumes "invariant s"
  shows "length (out s) + length (in_flight (agg s)) = length (handed_over (workers s))"
proof -
  from assms have "mset (out s) + mset (in_flight (agg s)) = mset (handed_over (workers s))"
    by (simp add: invariant_def)
  then have "size (mset (out s) + mset (in_flight (agg s))) = size (mset (handed_over (workers s)))"
    by simp
  then show ?thesis by simp
qed

lemma invariant_length_workers:
  "invariant s \<Longrightarrow> length (workers s) + length (unspawned (agg s)) = length (urls s)"
proof -
  assume "invariant s"
  then have "urls s = map fst (workers s) @ unspawned (agg s)" by (simp add: invariant_def)
  then have "length (urls s) = length (map fst (workers s) @ unspawned (agg s))" by simp
  then show ?thesis by simp
qed

lemma invariant_out_le: "invariant s \<Longrightarrow> length (out s) \<le> length (urls s)"
  using invariant_length_out [of s] invariant_length_workers [of s]
    length_handed_over [of "workers s"] by simp

text \<open>
  While the aggregator has not returned and the consumer has not stopped receiving, some
  step of the program is enabled.
\<close>

lemma progress_FanIn:
  assumes inv: "invariant s" and a: "agg s = FanIn j"
  shows "\<exists>e. is_program_step e \<and> step e s \<noteq> None"
proof (cases "j < length (urls s)")
  case False
  with a have "step LoopEnd s \<noteq> None" by simp
  moreover have "is_program_step LoopEnd" by simp
  ultimately show ?thesis by blast
next
  case j: True
  show ?thesis
  proof (cases "ctx s")
    case (Some err)
    with a j have "step AggCtxDone s \<noteq> None" by simp
    moreover have "is_program_step AggCtxDone" by simp
    ultimately show ?thesis by blast
  next
    case None
    from inv a have "j = length (out s)" by (simp add: invariant_def)
    with invariant_length_out [OF inv] a have "length (handed_over (workers s)) = j" by simp
    moreover from invariant_length_workers [OF inv] a have lw: "length (workers s) = length (urls s)"
      by simp
    ultimately have "length (handed_over (workers s)) < length (workers s)" using j by simp
    from handed_over_missing [OF this] obtain i where
      i: "i < length (workers s)" and nd: "snd (workers s ! i) \<noteq> Done" by blast
    from inv i have wf: "wf_worker (ctx s) (workers s ! i)"
      by (simp add: invariant_def list_all_nth)
    obtain u pc where w: "workers s ! i = (u, pc)" by (cases "workers s ! i")
    show ?thesis
    proof (cases pc)
      case Fetching
      with w i have "step (FetchReturns i AfterDelay) s \<noteq> None" by simp
      moreover have "is_program_step (FetchReturns i AfterDelay)" by simp
      ultimately show ?thesis by blast
    next
      case (Sending d)
      with w i a j have "step (Recv i) s \<noteq> None" by simp
      moreover have "is_program_step (Recv i)" by simp
      ultimately show ?thesis by blast
    next
      case Done
      with w nd show ?thesis by simp
    next
      case (Failed e)
      with w wf None show ?thesis by simp
    qed
  qed
qed

lemma progress_Receiving:
  assumes inv: "invariant s" and a: "agg s \<noteq> Returned" and c: "consumer s = Receiving"
  shows "\<exists>e. is_program_step e \<and> step e s \<noteq> None"
proof (cases "agg s")
  case (FanOut rest)
  show ?thesis
  proof (cases rest)
    case Nil
    with FanOut have "step FanOutEnd s \<noteq> None" by simp
    moreover have "is_program_step FanOutEnd" by simp
    ultimately show ?thesis by blast
  next
    case (Cons u rest')
    with FanOut have "step Spawn s \<noteq> None" by simp
    moreover have "is_program_step Spawn" by simp
    ultimately show ?thesis by blast
  qed
next
  case (FanIn j)
  from progress_FanIn [OF inv this] show ?thesis .
next
  case (Forward j d)
  with c have "step Deliver s \<noteq> None" by simp
  moreover have "is_program_step Deliver" by simp
  ultimately show ?thesis by blast
next
  case Returned
  with a show ?thesis by simp
qed

lemma progress:
  assumes inv: "invariant s" and c: "consumer s \<noteq> Absent"
    and a: "agg s \<noteq> Returned \<or> consumer s \<noteq> Receiving"
  shows "\<exists>e. is_program_step e \<and> step e s \<noteq> None"
proof (cases "consumer s")
  case Receiving
  with a have "agg s \<noteq> Returned" by simp
  from progress_Receiving [OF inv this Receiving] show ?thesis .
next
  case (Printing d)
  then have "step Print s \<noteq> None" by simp
  moreover have "is_program_step Print" by simp
  ultimately show ?thesis by blast
next
  case Absent
  with c show ?thesis by simp
qed

lemma blocked_Returned:
  assumes inv: "invariant s" and blocked: "\<forall>e. is_program_step e \<longrightarrow> step e s = None"
    and c: "consumer s \<noteq> Absent"
  shows "agg s = Returned \<and> consumer s = Receiving"
proof (rule ccontr)
  assume "\<not> (agg s = Returned \<and> consumer s = Receiving)"
  then have "agg s \<noteq> Returned \<or> consumer s \<noteq> Receiving" by simp
  from progress [OF inv c this] obtain e where e: "is_program_step e" and en: "step e s \<noteq> None"
    by (elim exE conjE)
  from blocked have "is_program_step e \<longrightarrow> step e s = None" by (rule spec)
  with e en show False by simp
qed

lemma invariant_closes:
  assumes "invariant s"
  shows "closes s = (if agg s = Returned then 1 else 0)"
proof -
  from assms have "wf_agg s (agg s)" by (simp add: invariant_def)
  then show ?thesis by (cases "agg s") simp_all
qed

lemma invariant_all_or_cancelled:
  assumes "invariant s" and "agg s = Returned" and "ctx s = None"
  shows "length (urls s) \<le> length (out s)"
proof -
  from assms(1) have "wf_agg s (agg s)" by (simp add: invariant_def)
  with assms(2,3) show ?thesis by simp
qed

lemma invariant_out_subset:
  assumes "invariant s"
  shows "mset (out s) \<subseteq># mset (map payload (urls s))"
proof -
  from assms have m: "mset (out s) + mset (in_flight (agg s)) = mset (handed_over (workers s))"
    and u: "urls s = map fst (workers s) @ unspawned (agg s)"
    by (simp_all add: invariant_def)
  have "mset (out s) \<subseteq># mset (out s) + mset (in_flight (agg s))" by simp
  also have "\<dots> = mset (handed_over (workers s))" by (fact m)
  also have "\<dots> \<subseteq># mset (map payload (map fst (workers s)))" by (fact mset_handed_over_subset)
  also have "\<dots> \<subseteq># mset (map payload (map fst (workers s) @ unspawned (agg s)))" by simp
  finally have "mset (out s) \<subseteq># mset (map payload (map fst (workers s) @ unspawned (agg s)))" .
  then show ?thesis by (simp only: u [symmetric])
qed

lemma invariant_all_delivered:
  assumes inv: "invariant s" and a: "agg s = Returned" and c: "ctx s = None"
  shows "mset (out s) = mset (map payload (urls s))"
proof -
  from invariant_all_or_cancelled [OF inv a c] have "length (urls s) \<le> length (out s)" .
  moreover from invariant_length_out [OF inv] a
  have lo: "length (out s) = length (handed_over (workers s))" by simp
  moreover from invariant_length_workers [OF inv] a
  have lw: "length (workers s) = length (urls s)" by simp
  ultimately have "length (workers s) \<le> length (handed_over (workers s))" by linarith
  from handed_over_all [OF this] have h: "handed_over (workers s) = map payload (map fst (workers s))" .
  from inv have m: "mset (out s) + mset (in_flight (agg s)) = mset (handed_over (workers s))"
    and u: "urls s = map fst (workers s) @ unspawned (agg s)" by (simp_all add: invariant_def)
  from u a have u': "map fst (workers s) = urls s" by simp
  from m a have "mset (out s) = mset (handed_over (workers s))" by simp
  then show ?thesis by (simp only: h u')
qed

section \<open>Runs, returned workers and handoffs\<close>

lemma run_append:
  "run (xs @ ys) s = (case run xs s of None \<Rightarrow> None | Some s1 \<Rightarrow> run ys s1)"
  by (induction xs arbitrary: s) (auto split: option.splits)

lemma run_snoc:
  assumes "run (es @ [e]) s0 = Some s'"
  obtains s where "run es s0 = Some s" and "step e s = Some s'"
  using assms by (auto simp: run_append split: option.splits)



text \<open>A worker that has returned stays as it is.\<close>

lemma step_returned_worker_kept:
  assumes "step ev s = Some s1" and "i < length (workers s)" and "\<not> running (snd (workers s ! i))"
  shows "i < length (workers s1) \<and> workers s1 ! i = workers s ! i"
proof (cases ev)
  case (FetchReturns j k)
  with assms(1) have "step (FetchReturns j k) s = Some s1" by simp
  then obtain r where j: "j < length (workers s)" and pc: "snd (workers s ! j) = Fetching"
    and s1: "s1 = worker_after_fetch j (fst (workers s ! j)) r s"
    by (rule step_FetchReturnsE)
  from pc assms(3) have "j \<noteq> i" by auto
  with s1 assms(2) show ?thesis by (cases r) simp_all
next
  case (Recv j)
  with assms(1) have "step (Recv j) s = Some s1" by simp
  then obtain n d where j: "j < length (workers s)" and pc: "snd (workers s ! j) = Sending d"
    and s1: "s1 = s\<lparr>agg := Forward n d, workers := (workers s)[j := (fst (workers s ! j), Done)]\<rparr>"
    by (rule step_RecvE)
  from pc assms(3) have "j \<noteq> i" by auto
  with s1 assms(2) show ?thesis by simp
qed (use assms in \<open>auto simp: cancel_def nth_append
       split: apc.splits list.splits cpc.splits if_splits option.splits\<close>)

lemma run_returned_worker_kept:
  "run sched s = Some s1 \<Longrightarrow> i < length (workers s) \<Longrightarrow> \<not> running (snd (workers s ! i)) \<Longrightarrow>
   i < length (workers s1) \<and> workers s1 ! i = workers s ! i"
proof (induction sched arbitrary: s)
  case Nil
  then show ?case by simp
next
  case (Cons e es)
  then obtain s0 where s0: "step e s = Some s0" and r: "run es s0 = Some s1"
    by (auto split: option.splits)
  from step_returned_worker_kept [OF s0 Cons.prems(2,3)]
  have k: "i < length (workers s0)" and w: "workers s0 ! i = workers s ! i" by simp_all
  from Cons.prems(3) w have "\<not> running (snd (workers s0 ! i))" by simp
  from Cons.IH [OF r k this] w show ?case by simp
qed

text \<open>
  Worker \<open>i\<close> is the goroutine of the url at index \<open>i\<close>, and the values the aggregator
  has received are the payloads of the workers it received them from, in that order.
\<close>

lemma invariant_worker_url:
  assumes "invariant s" and "i < length (workers s)"
  shows "fst (workers s ! i) = urls s ! i"
proof -
  from assms(1) have "urls s = map fst (workers s) @ unspawned (agg s)"
    by (simp add: invariant_def)
  then have "urls s ! i = (map fst (workers s) @ unspawned (agg s)) ! i" by simp
  with assms(2) show ?thesis by (simp add: nth_append)
qed

lemma handoffs_append: "handoffs (xs @ ys) = handoffs xs @ handoffs ys"
  by (induction xs rule: handoffs.induct) simp_all

lemma step_received_kept:
  assumes "step e s = Some s'" and "handoffs [e] = []"
  shows "out s' @ in_flight (agg s') = out s @ in_flight (agg s)"
  using assms
  by (cases e)
     (auto simp: cancel_def
        split: apc.splits list.splits wpc.splits cpc.splits option.splits if_splits)

lemma step_handoffs:
  assumes inv: "invariant s"
    and o: "out s @ in_flight (agg s) = map (\<lambda>i. payload (urls s ! i)) hs"
    and d: "distinct hs"
    and w: "\<forall>i\<in>set hs. i < length (workers s) \<and> snd (workers s ! i) = Done"
    and st: "step e s = Some s'"
  shows "out s' @ in_flight (agg s') = map (\<lambda>i. payload (urls s ! i)) (hs @ handoffs [e]) \<and>
         distinct (hs @ handoffs [e]) \<and>
         (\<forall>i\<in>set (hs @ handoffs [e]). i < length (workers s') \<and> snd (workers s' ! i) = Done)"
proof (cases "handoffs [e] = []")
  case True
  have "\<forall>i\<in>set hs. i < length (workers s') \<and> snd (workers s' ! i) = Done"
  proof
    fix i assume "i \<in> set hs"
    with w have i: "i < length (workers s)" and pc: "snd (workers s ! i) = Done" by simp_all
    from pc have "\<not> running (snd (workers s ! i))" by simp
    from step_returned_worker_kept [OF st i this] pc
    show "i < length (workers s') \<and> snd (workers s' ! i) = Done" by simp
  qed
  with step_received_kept [OF st True] o d True show ?thesis by simp
next
  case False
  then obtain i where e: "e = Recv i" by (cases e) simp_all
  with st have "step (Recv i) s = Some s'" by simp
  then obtain j v where a: "agg s = FanIn j" and i: "i < length (workers s)"
    and pc: "snd (workers s ! i) = Sending v"
    and s': "s' = s\<lparr>agg := Forward j v, workers := (workers s)[i := (fst (workers s ! i), Done)]\<rparr>"
    by (rule step_RecvE)
  from inv i have "wf_worker (ctx s) (workers s ! i)"
    by (simp add: invariant_def list_all_nth)
  with pc have "v = payload (fst (workers s ! i))" by (cases "workers s ! i") simp
  with invariant_worker_url [OF inv i] have v: "v = payload (urls s ! i)" by simp
  from w pc have ni: "i \<notin> set hs" by auto
  have "\<forall>k\<in>set (hs @ [i]). k < length (workers s') \<and> snd (workers s' ! k) = Done"
  proof
    fix k assume "k \<in> set (hs @ [i])"
    then consider "k = i" | "k \<in> set hs" "k \<noteq> i" by auto
    then show "k < length (workers s') \<and> snd (workers s' ! k) = Done"
    proof cases
      case 1
      with s' i show ?thesis by simp
    next
      case 2
      with w s' show ?thesis by simp
    qed
  qed
  with o d a s' v ni e show ?thesis by simp
qed

lemma run_handoffs:
  "run sched (fanout_fetch c us) = Some s \<Longrightarrow>
   out s @ in_flight (agg s) = map (\<lambda>i. payload (us ! i)) (handoffs sched) \<and>
   distinct (handoffs sched) \<and>
   (\<forall>i\<in>set (handoffs sched). i < length (workers s) \<and> snd (workers s ! i) = Done)"
proof (induction sched arbitrary: s rule: rev_induct)
  case Nil
  then show ?case by (auto simp: fanout_fetch_def)
next
  case (snoc e es)
  from snoc.prems obtain s0 where r: "run es (fanout_fetch c us) = Some s0"
    and st: "step e s0 = Some s"
    by (rule run_snoc)
  from reachable_invariant [OF r] have inv: "invariant s0" .
  from reachable_urls [OF r] have u: "urls s0 = us" .
  from snoc.IH [OF r] u
  have o: "out s0 @ in_flight (agg s0) = map (\<lambda>i. payload (urls s0 ! i)) (handoffs es)"
    and d: "distinct (handoffs es)"
    and w: "\<forall>i\<in>set (handoffs es). i < length (workers s0) \<and> snd (workers s0 ! i) = Done"
    by simp_all
  from step_handoffs [OF inv o d w st] u show ?case
    by (simp add: handoffs_append)
qed

section \<open>What the consumer receives\<close>

text \<open>
  Claim C7. A dispatch never delivers more than one result per item: the results
  received from \<open>out\<close> are, as a multiset, contained in the payloads of the dispatched
  urls, so the stream never holds more than N results.
\<close>

theorem at_most_once_delivery:
  assumes "run sched (fanout_fetch c us) = Some s"
  shows "mset (out s) \<subseteq># mset (map payload us) \<and> length (out s) \<le> length us"
proof -
  from reachable_invariant [OF assms] have inv: "invariant s" .
  from reachable_urls [OF assms] have u: "urls s = us" .
  from invariant_out_subset [OF inv] invariant_out_le [OF inv] u show ?thesis by simp
qed

theorem at_most_once_delivery_witness:
  "\<exists>s. run [Spawn, Spawn, FanOutEnd, FetchReturns 1 AfterDelay, Recv 1, Deliver,
            FetchReturns 0 AfterDelay, Recv 0, Print, Deliver, Print, LoopEnd]
        (fanout_fetch None [''a.com'', ''b.com'']) = Some s \<and>
       out s = [''Data from b.com'', ''Data from a.com''] \<and>
       mset (out s) \<subseteq># mset (map payload [''a.com'', ''b.com'']) \<and>
       length (out s) \<le> length [''a.com'', ''b.com'']"
proof -
  have "\<exists>s. run [Spawn, Spawn, FanOutEnd, FetchReturns 1 AfterDelay, Recv 1, Deliver,
            FetchReturns 0 AfterDelay, Recv 0, Print, Deliver, Print, LoopEnd]
        (fanout_fetch None [''a.com'', ''b.com'']) = Some s \<and>
       out s = [''Data from b.com'', ''Data from a.com'']"
    by (simp add: fanout_fetch_def payload_def)
  then obtain s where r: "run [Spawn, Spawn, FanOutEnd, FetchReturns 1 AfterDelay, Recv 1, Deliver,
            FetchReturns 0 AfterDelay, Recv 0, Print, Deliver, Print, LoopEnd]
        (fanout_fetch None [''a.com'', ''b.com'']) = Some s"
    and o: "out s = [''Data from b.com'', ''Data from a.com'']"
    by (elim exE conjE)
  from at_most_once_delivery [OF r] r o show ?thesis
    by (intro exI [of _ s]) simp
qed

text \<open>
  Claim C10. Every value the aggregator receives is \<open>Data from\<close>, a space, and the url of
  the very item whose worker handed it over: in the order of the aggregator's receives,
  the values received from \<open>out\<close>, followed by the one the aggregator may still hold, are
  the payloads of the urls at the indices of those workers. No worker hands over twice.
  So the value delivered for an item depends on that item's url alone, not on the
  schedule, on the other items or on which workers ran before.
\<close>

theorem success_payload:
  assumes "run sched (fanout_fetch c us) = Some s"
  shows "out s @ in_flight (agg s) = map (\<lambda>i. ''Data from '' @ us ! i) (handoffs sched) \<and>
         distinct (handoffs sched) \<and> set (handoffs sched) \<subseteq> {..<length us}"
proof -
  from reachable_invariant [OF assms] have inv: "invariant s" .
  from reachable_urls [OF assms] have u: "urls s = us" .
  from run_handoffs [OF assms]
  have o: "out s @ in_flight (agg s) = map (\<lambda>i. payload (us ! i)) (handoffs sched)"
    and d: "distinct (handoffs sched)"
    and w: "\<forall>i\<in>set (handoffs sched). i < length (workers s) \<and> snd (workers s ! i) = Done"
    by simp_all
  from invariant_length_workers [OF inv] u have "length (workers s) \<le> length us" by simp
  with w have "set (handoffs sched) \<subseteq> {..<length us}" by auto
  with o d show ?thesis by (simp add: payload_def)
qed

theorem success_payload_witness:
  "\<exists>s. run [Spawn, Spawn, FanOutEnd, FetchReturns 1 AfterDelay, Recv 1, Deliver,
            FetchReturns 0 AfterDelay, Recv 0, Print]
        (fanout_fetch None [''a.com'', ''b.com'']) = Some s \<and>
       handoffs [Spawn, Spawn, FanOutEnd, FetchReturns 1 AfterDelay, Recv 1, Deliver,
            FetchReturns 0 AfterDelay, Recv 0, Print] = [1, 0] \<and>
       out s = [''Data from b.com''] \<and> in_flight (agg s) = [''Data from a.com''] \<and>
       out s @ in_flight (agg s) =
         map (\<lambda>i. ''Data from '' @ [''a.com'', ''b.com''] ! i)
           (handoffs [Spawn, Spawn, FanOutEnd, FetchReturns 1 AfterDelay, Recv 1, Deliver,
              FetchReturns 0 AfterDelay, Recv 0, Print])"
proof -
  have "\<exists>s. run [Spawn, Spawn, FanOutEnd, FetchReturns 1 AfterDelay, Recv 1, Deliver,
            FetchReturns 0 AfterDelay, Recv 0, Print]
        (fanout_fetch None [''a.com'', ''b.com'']) = Some s \<and>
       out s = [''Data from b.com''] \<and> in_flight (agg s) = [''Data from a.com'']"
    by (simp add: fanout_fetch_def payload_def)
  then obtain s where r: "run [Spawn, Spawn, FanOutEnd, FetchReturns 1 AfterDelay, Recv 1, Deliver,
            FetchReturns 0 AfterDelay, Recv 0, Print]
        (fanout_fetch None [''a.com'', ''b.com'']) = Some s"
    and o: "out s = [''Data from b.com'']" and f: "in_flight (agg s) = [''Data from a.com'']"
    by (elim exE conjE)
  have h: "handoffs [Spawn, Spawn, FanOutEnd, FetchReturns 1 AfterDelay, Recv 1, Deliver,
            FetchReturns 0 AfterDelay, Recv 0, Print] = [1, 0]"
    by simp
  from success_payload [OF r]
  have "out s @ in_flight (agg s) =
         map (\<lambda>i. ''Data from '' @ [''a.com'', ''b.com''] ! i)
           (handoffs [Spawn, Spawn, FanOutEnd, FetchReturns 1 AfterDelay, Recv 1, Deliver,
              FetchReturns 0 AfterDelay, Recv 0, Print])"
    by (rule conjunct1)
  with r h o f show ?thesis
    by - (rule exI [of _ s], intro conjI)
qed

text \<open>
  Claim C1, as amended. The dispatch starts one worker per url. When the aggregator has
  returned and the context is not done, the values received from \<open>out\<close> are exactly the
  payloads of the dispatched urls, one for each, and \<open>out\<close> has been closed once.
\<close>

theorem all_results_without_cancellation:
  assumes "run sched (fanout_fetch c us) = Some s" and "agg s = Returned" and "ctx s = None"
  shows "mset (out s) = mset (map payload us) \<and> length (out s) = length us \<and> closes s = 1"
proof -
  from reachable_invariant [OF assms(1)] have inv: "invariant s" .
  from reachable_urls [OF assms(1)] have u: "urls s = us" .
  from invariant_all_delivered [OF inv assms(2,3)] u
  have m: "mset (out s) = mset (map payload us)" by simp
  then have "size (mset (out s)) = size (mset (map payload us))" by simp
  then have l: "length (out s) = length us" by simp
  from invariant_closes [OF inv] assms(2) have "closes s = 1" by simp
  with m l show ?thesis by simp
qed

theorem all_results_without_cancellation_witness:
  "\<exists>s. run [Spawn, Spawn, FanOutEnd, FetchReturns 1 AfterDelay, Recv 1, Deliver,
            FetchReturns 0 AfterDelay, Recv 0, Print, Deliver, Print, LoopEnd]
        (fanout_fetch None [''a.com'', ''b.com'']) = Some s \<and>
       agg s = Returned \<and> ctx s = None \<and>
       out s = [''Data from b.com'', ''Data from a.com''] \<and>
       mset (out s) = mset (map payload [''a.com'', ''b.com'']) \<and>
       length (out s) = length [''a.com'', ''b.com''] \<and> closes s = 1"
proof -
  have "\<exists>s. run [Spawn, Spawn, FanOutEnd, FetchReturns 1 AfterDelay, Recv 1, Deliver,
            FetchReturns 0 AfterDelay, Recv 0, Print, Deliver, Print, LoopEnd]
        (fanout_fetch None [''a.com'', ''b.com'']) = Some s \<and>
       agg s = Returned \<and> ctx s = None \<and>
       out s = [''Data from b.com'', ''Data from a.com'']"
    by (simp add: fanout_fetch_def payload_def)
  then obtain s where r: "run [Spawn, Spawn, FanOutEnd, FetchReturns 1 AfterDelay, Recv 1, Deliver,
            FetchReturns 0 AfterDelay, Recv 0, Print, Deliver, Print, LoopEnd]
        (fanout_fetch None [''a.com'', ''b.com'']) = Some s"
    and a: "agg s = Returned" and c: "ctx s = None"
    and o: "out s = [''Data from b.com'', ''Data from a.com'']"
    by (elim exE conjE)
  from all_results_without_cancellation [OF r a c] r a c o show ?thesis
    by (intro exI [of _ s]) simp
qed

theorem not_every_item_gets_a_result:
  "run [Spawn, FanOutEnd, Trigger DeadlineExceeded, AggCtxDone, FetchReturns 0 CtxDone]
     (fanout_fetch None [''a.com'']) =
   Some \<lparr>urls = [''a.com''], ctx = Some DeadlineExceeded, agg = Returned,
         workers = [(''a.com'', Failed DeadlineExceeded)], out = [], closes = 1,
         stdout = [''Cancelled: context deadline exceeded'',
                   ''error: context deadline exceeded''],
         consumer = Receiving\<rparr>"
  by (simp add: fanout_fetch_def cancel_def)

section \<open>Closing the stream\<close>


lemma dispatch_run:
  "run [Spawn, FanOutEnd, FetchReturns 0 AfterDelay, Recv 0, Deliver, Print, LoopEnd]
     (fanout_fetch None [''a.com'']) =
   Some \<lparr>urls = [''a.com''], ctx = None, agg = Returned,
         workers = [(''a.com'', Done)], out = [''Data from a.com''], closes = 1,
         stdout = [''Result: Data from a.com''], consumer = Receiving\<rparr>"
  by (simp add: fanout_fetch_def payload_def)

lemma blocked_after_cancelled_dispatch:
  "is_program_step e \<Longrightarrow>
   step e \<lparr>urls = [''a.com'', ''b.com''], ctx = Some DeadlineExceeded, agg = Returned,
           workers = [(''a.com'', Failed DeadlineExceeded), (''b.com'', Done)],
           out = [''Data from b.com''], closes = 1,
           stdout = [''error: context deadline exceeded'',
                     ''Cancelled: context deadline exceeded'', ''Result: Data from b.com''],
           consumer = Receiving\<rparr> = None"
  by (cases e) (auto simp: nth_Cons' split: if_splits)

lemma cancelled_dispatch_run:
  "run [Spawn, Spawn, FanOutEnd, FetchReturns 1 AfterDelay, Recv 1, Deliver,
        Trigger DeadlineExceeded, FetchReturns 0 CtxDone, AggCtxDone, Print]
     (fanout_fetch None [''a.com'', ''b.com'']) =
   Some \<lparr>urls = [''a.com'', ''b.com''], ctx = Some DeadlineExceeded, agg = Returned,
         workers = [(''a.com'', Failed DeadlineExceeded), (''b.com'', Done)],
         out = [''Data from b.com''], closes = 1,
         stdout = [''error: context deadline exceeded'',
                   ''Cancelled: context deadline exceeded'', ''Result: Data from b.com''],
         consumer = Receiving\<rparr>"
  by (simp add: fanout_fetch_def cancel_def payload_def)




text \<open>
  Claim C2, as amended. For a consumer that keeps receiving, the stream is finite and
  always closes: a run holds at most \<open>4 * N + 2\<close> steps of the aggregator and the
  workers and at most \<open>5 * N + 2\<close> steps of the program in all, and a state in which no
  step of the program is enabled has the aggregator returned and \<open>out\<close> closed, with at
  most N results received. Either all N results were received, or the context is done; in
  that case the stream closes early, and the remaining items are left without any result.
\<close>

theorem stream_always_terminates:
  assumes "run sched (fanout_fetch c us) = Some s"
  shows "length (filter is_dispatcher_step sched) \<le> 4 * length us + 2 \<and>
         length (filter is_program_step sched) \<le> 5 * length us + 2 \<and>
         ((\<forall>e. is_program_step e \<longrightarrow> step e s = None) \<and> consumer s \<noteq> Absent \<longrightarrow>
            agg s = Returned \<and> closes s = 1 \<and> length (out s) \<le> length us \<and>
            (length (out s) = length us \<or> (\<exists>err. ctx s = Some err)))"
proof -
  from reachable_invariant [OF assms] have inv: "invariant s" .
  from reachable_urls [OF assms] have u: "urls s = us" .
  from run_fuel [OF assms] fuel_init [of c us]
  have bound: "length (filter is_dispatcher_step sched) \<le> 4 * length us + 2" by simp
  from run_total_fuel [OF assms] total_fuel_init [of c us]
  have total: "length (filter is_program_step sched) \<le> 5 * length us + 2" by simp
  from invariant_out_le [OF inv] u have le: "length (out s) \<le> length us" by simp
  have "agg s = Returned \<and> closes s = 1 \<and> length (out s) \<le> length us \<and>
        (length (out s) = length us \<or> (\<exists>err. ctx s = Some err))"
    if "(\<forall>e. is_program_step e \<longrightarrow> step e s = None) \<and> consumer s \<noteq> Absent"
  proof -
    from that have blocked: "\<forall>e. is_program_step e \<longrightarrow> step e s = None"
      and k: "consumer s \<noteq> Absent" by simp_all
    from blocked_Returned [OF inv blocked k] have a: "agg s = Returned" by simp
    from invariant_closes [OF inv] a have cl: "closes s = 1" by simp
    have "length (out s) = length us \<or> (\<exists>err. ctx s = Some err)"
    proof (cases "ctx s")
      case None
      from invariant_all_or_cancelled [OF inv a None] u le show ?thesis by simp
    next
      case (Some err)
      then show ?thesis by simp
    qed
    with a cl le show ?thesis by simp
  qed
  with bound total show ?thesis by (intro conjI impI) simp_all
qed

theorem stream_always_terminates_witness:
  "\<exists>s. run [Spawn, Spawn, FanOutEnd, FetchReturns 1 AfterDelay, Recv 1, Deliver,
            Trigger DeadlineExceeded, FetchReturns 0 CtxDone, AggCtxDone, Print]
         (fanout_fetch None [''a.com'', ''b.com'']) = Some s \<and>
       (\<forall>e. is_program_step e \<longrightarrow> step e s = None) \<and> consumer s \<noteq> Absent \<and>
       agg s = Returned \<and> closes s = 1 \<and> out s = [''Data from b.com''] \<and>
       ctx s = Some DeadlineExceeded"
proof -
  obtain s where s: "s = \<lparr>urls = [''a.com'', ''b.com''], ctx = Some DeadlineExceeded, agg = Returned,
         workers = [(''a.com'', Failed DeadlineExceeded), (''b.com'', Done)],
         out = [''Data from b.com''], closes = 1,
         stdout = [''error: context deadline exceeded'',
                   ''Cancelled: context deadline exceeded'', ''Result: Data from b.com''],
         consumer = Receiving\<rparr>"
    by simp
  have r: "run [Spawn, Spawn, FanOutEnd, FetchReturns 1 AfterDelay, Recv 1, Deliver,
            Trigger DeadlineExceeded, FetchReturns 0 CtxDone, AggCtxDone, Print]
         (fanout_fetch None [''a.com'', ''b.com'']) = Some s"
    unfolding s by (rule cancelled_dispatch_run)
  have b: "\<forall>e. is_program_step e \<longrightarrow> step e s = None"
    unfolding s by (intro allI impI) (rule blocked_after_cancelled_dispatch)
  from s have k: "consumer s \<noteq> Absent" by simp
  from stream_always_terminates [OF r]
  have "(\<forall>e. is_program_step e \<longrightarrow> step e s = None) \<and> consumer s \<noteq> Absent \<longrightarrow>
            agg s = Returned \<and> closes s = 1 \<and> length (out s) \<le> length [''a.com'', ''b.com''] \<and>
            (length (out s) = length [''a.com'', ''b.com''] \<or> (\<exists>err. ctx s = Some err))"
    by simp
  moreover from b k
  have "(\<forall>e. is_program_step e \<longrightarrow> step e s = None) \<and> consumer s \<noteq> Absent" ..
  ultimately have "agg s = Returned \<and> closes s = 1 \<and> length (out s) \<le> length [''a.com'', ''b.com''] \<and>
            (length (out s) = length [''a.com'', ''b.com''] \<or> (\<exists>err. ctx s = Some err))"
    by (rule mp)
  then have a: "agg s = Returned" and c: "closes s = 1" by simp_all
  from s have o: "out s = [''Data from b.com'']" and x: "ctx s = Some DeadlineExceeded"
    by simp_all
  from r b k a c o x show ?thesis
    by - (rule exI [of _ s], intro conjI)
qed

theorem cancellation_drops_remaining_items:
  "run [Spawn, Spawn, FanOutEnd, FetchReturns 1 AfterDelay, Recv 1, Deliver, Print,
        Trigger DeadlineExceeded, AggCtxDone, FetchReturns 0 CtxDone]
     (fanout_fetch None [''a.com'', ''b.com'']) =
   Some \<lparr>urls = [''a.com'', ''b.com''], ctx = Some DeadlineExceeded, agg = Returned,
         workers = [(''a.com'', Failed DeadlineExceeded), (''b.com'', Done)],
         out = [''Data from b.com''], closes = 1,
         stdout = [''Result: Data from b.com'', ''Cancelled: context deadline exceeded'',
                   ''error: context deadline exceeded''],
         consumer = Receiving\<rparr>"
  by (simp add: fanout_fetch_def cancel_def payload_def)

section \<open>Failures and the select of the aggregator\<close>

lemma handed_over_short:
  "i < length ws \<Longrightarrow> snd (ws ! i) \<noteq> Done \<Longrightarrow> length (handed_over ws) < length ws"
proof (induction ws arbitrary: i)
  case Nil
  then show ?case by simp
next
  case (Cons w ws)
  show ?case
  proof (cases i)
    case 0
    with Cons.prems length_handed_over [of ws] show ?thesis by simp
  next
    case (Suc n)
    with Cons.prems have "length (handed_over ws) < length ws" by (intro Cons.IH [of n]) simp_all
    then show ?thesis by simp
  qed
qed

text \<open>
  Claim C3, as amended. When \<open>fan_in_out_fetch\<close> fails for an item (which it does only
  with the error of a done context), the worker prints the error and returns: nothing
  but that worker's program counter and the printed lines changes, so the aggregator and
  the other workers go on as before. No result is ever delivered for the failed item:
  the worker stays returned and the stream holds fewer than N results from then on.
\<close>

theorem failed_item_yields_no_result:
  assumes "run sched (fanout_fetch c us) = Some s"
    and "step (FetchReturns i k) s = Some s'"
    and "fan_in_out_fetch (ctx s) k (fst (workers s ! i)) = Some (Inl err)"
    and "run later s' = Some s''"
  shows "ctx s = Some err \<and>
         s' = s\<lparr>workers := (workers s)[i := (fst (workers s ! i), Failed err)],
                stdout := stdout s @ [''error: '' @ err_string err]\<rparr> \<and>
         workers s'' ! i = (fst (workers s ! i), Failed err) \<and>
         length (out s'') < length us"
proof -
  from assms(3) have c: "ctx s = Some err"
    by (cases "(ctx s, k, fst (workers s ! i))" rule: fan_in_out_fetch.cases) auto
  from assms(2) have i: "i < length (workers s)"
    by (auto split: if_splits)
  from assms(2,3) i have s': "s' = s\<lparr>workers := (workers s)[i := (fst (workers s ! i), Failed err)],
                stdout := stdout s @ [''error: '' @ err_string err]\<rparr>"
    by (auto split: wpc.splits)
  from s' i have i': "i < length (workers s')" and w': "workers s' ! i = (fst (workers s ! i), Failed err)"
    by simp_all
  from w' have "\<not> running (snd (workers s' ! i))" by simp
  from run_returned_worker_kept [OF assms(4) i' this] w'
  have i'': "i < length (workers s'')" and w'': "workers s'' ! i = (fst (workers s ! i), Failed err)"
    by simp_all
  from reachable_invariant [OF assms(1)] have "invariant s" .
  from invariant_step [OF this assms(2)] have "invariant s'" .
  from invariant_run [OF this assms(4)] have inv: "invariant s''" .
  from run_urls [OF assms(4)] step_urls [OF assms(2)] reachable_urls [OF assms(1)]
  have u: "urls s'' = us" by simp
  from w'' have "snd (workers s'' ! i) \<noteq> Done" by simp
  from handed_over_short [OF i'' this]
  have "length (handed_over (workers s'')) < length (workers s'')" .
  with invariant_length_out [OF inv] invariant_length_workers [OF inv] u
  have "length (out s'') < length us" by simp
  with c s' w'' show ?thesis by simp
qed

theorem failed_item_yields_no_result_witness:
  "\<exists>s s' s''. run [Spawn, Spawn, FanOutEnd, Trigger DeadlineExceeded]
                 (fanout_fetch None [''a.com'', ''b.com'']) = Some s \<and>
       step (FetchReturns 0 CtxDone) s = Some s' \<and>
       fan_in_out_fetch (ctx s) CtxDone (fst (workers s ! 0)) = Some (Inl DeadlineExceeded) \<and>
       run [FetchReturns 1 AfterDelay, Recv 1, Deliver, AggCtxDone, Print] s' = Some s'' \<and>
       workers s'' ! 0 = (''a.com'', Failed DeadlineExceeded) \<and>
       out s'' = [''Data from b.com''] \<and>
       length (out s'') < length [''a.com'', ''b.com'']"
proof -
  have "\<exists>s s' s''. run [Spawn, Spawn, FanOutEnd, Trigger DeadlineExceeded]
                 (fanout_fetch None [''a.com'', ''b.com'']) = Some s \<and>
       step (FetchReturns 0 CtxDone) s = Some s' \<and>
       fan_in_out_fetch (ctx s) CtxDone (fst (workers s ! 0)) = Some (Inl DeadlineExceeded) \<and>
       run [FetchReturns 1 AfterDelay, Recv 1, Deliver, AggCtxDone, Print] s' = Some s'' \<and>
       fst (workers s ! 0) = ''a.com'' \<and> out s'' = [''Data from b.com'']"
    by (simp add: fanout_fetch_def cancel_def payload_def)
  then obtain s s' s'' where r: "run [Spawn, Spawn, FanOutEnd, Trigger DeadlineExceeded]
                 (fanout_fetch None [''a.com'', ''b.com'']) = Some s"
    and f: "step (FetchReturns 0 CtxDone) s = Some s'"
    and e: "fan_in_out_fetch (ctx s) CtxDone (fst (workers s ! 0)) = Some (Inl DeadlineExceeded)"
    and l: "run [FetchReturns 1 AfterDelay, Recv 1, Deliver, AggCtxDone, Print] s' = Some s''"
    and u: "fst (workers s ! 0) = ''a.com''" and o: "out s'' = [''Data from b.com'']"
    by (elim exE conjE)
  from failed_item_yields_no_result [OF r f e l]
  have "workers s'' ! 0 = (fst (workers s ! 0), Failed DeadlineExceeded)"
    and "length (out s'') < length [''a.com'', ''b.com'']"
    by simp_all
  with r f e l u o show ?thesis
    by (intro exI [of _ s] exI [of _ s'] exI [of _ s'']) simp
qed

theorem failure_is_not_delivered:
  "run [Spawn, FanOutEnd, Trigger DeadlineExceeded, FetchReturns 0 CtxDone, AggCtxDone]
     (fanout_fetch None [''a.com'']) =
   Some \<lparr>urls = [''a.com''], ctx = Some DeadlineExceeded, agg = Returned,
         workers = [(''a.com'', Failed DeadlineExceeded)], out = [], closes = 1,
         stdout = [''error: context deadline exceeded'',
                   ''Cancelled: context deadline exceeded''],
         consumer = Receiving\<rparr>"
  by (simp add: fanout_fetch_def cancel_def)









text \<open>
  Claim C9. In this run the only worker has its result ready when the deadline fires and
  the aggregator takes its \<open>ctx.Done()\<close> case. The aggregator has returned, the worker is
  blocked in its send on \<open>resultCh\<close>, and every event is disabled, leaves the state as it
  is, or only records that the caller has stopped receiving, after which the same holds:
  the worker goroutine never exits.
\<close>

theorem worker_goroutine_leak:
  "run [Spawn, FanOutEnd, FetchReturns 0 AfterDelay, Trigger DeadlineExceeded, AggCtxDone]
     (fanout_fetch None [''a.com'']) =
   Some \<lparr>urls = [''a.com''], ctx = Some DeadlineExceeded, agg = Returned,
       workers = [(''a.com'', Sending ''Data from a.com'')], out = [], closes = 1,
       stdout = [''Cancelled: context deadline exceeded''], consumer = Receiving\<rparr> \<and>
   live_goroutines
     \<lparr>urls = [''a.com''], ctx = Some DeadlineExceeded, agg = Returned,
       workers = [(''a.com'', Sending ''Data from a.com'')], out = [], closes = 1,
       stdout = [''Cancelled: context deadline exceeded''], consumer = Receiving\<rparr> = 1 \<and>
   (\<forall>e. step e \<lparr>urls = [''a.com''], ctx = Some DeadlineExceeded, agg = Returned,
       workers = [(''a.com'', Sending ''Data from a.com'')], out = [], closes = 1,
       stdout = [''Cancelled: context deadline exceeded''], consumer = Receiving\<rparr> = None \<or>
     step e \<lparr>urls = [''a.com''], ctx = Some DeadlineExceeded, agg = Returned,
       workers = [(''a.com'', Sending ''Data from a.com'')], out = [], closes = 1,
       stdout = [''Cancelled: context deadline exceeded''], consumer = Receiving\<rparr> =
     Some \<lparr>urls = [''a.com''], ctx = Some DeadlineExceeded, agg = Returned,
       workers = [(''a.com'', Sending ''Data from a.com'')], out = [], closes = 1,
       stdout = [''Cancelled: context deadline exceeded''], consumer = Receiving\<rparr> \<or>
     step e \<lparr>urls = [''a.com''], ctx = Some DeadlineExceeded, agg = Returned,
       workers = [(''a.com'', Sending ''Data from a.com'')], out = [], closes = 1,
       stdout = [''Cancelled: context deadline exceeded''], consumer = Receiving\<rparr> =
     Some \<lparr>urls = [''a.com''], ctx = Some DeadlineExceeded, agg = Returned,
       workers = [(''a.com'', Sending ''Data from a.com'')], out = [], closes = 1,
       stdout = [''Cancelled: context deadline exceeded''], consumer = Absent\<rparr>) \<and>
   (\<forall>e. step e \<lparr>urls = [''a.com''], ctx = Some DeadlineExceeded, agg = Returned,
       workers = [(''a.com'', Sending ''Data from a.com'')], out = [], closes = 1,
       stdout = [''Cancelled: context deadline exceeded''], consumer = Absent\<rparr> = None \<or>
     step e \<lparr>urls = [''a.com''], ctx = Some DeadlineExceeded, agg = Returned,
       workers = [(''a.com'', Sending ''Data from a.com'')], out = [], closes = 1,
       stdout = [''Cancelled: context deadline exceeded''], consumer = Absent\<rparr> =
     Some \<lparr>urls = [''a.com''], ctx = Some DeadlineExceeded, agg = Returned,
       workers = [(''a.com'', Sending ''Data from a.com'')], out = [], closes = 1,
       stdout = [''Cancelled: context deadline exceeded''], consumer = Absent\<rparr>)"
proof (intro conjI allI)
  fix e
  show "step e \<lparr>urls = [''a.com''], ctx = Some DeadlineExceeded, agg = Returned,
       workers = [(''a.com'', Sending ''Data from a.com'')], out = [], closes = 1,
       stdout = [''Cancelled: context deadline exceeded''], consumer = Receiving\<rparr> = None \<or>
     step e \<lparr>urls = [''a.com''], ctx = Some DeadlineExceeded, agg = Returned,
       workers = [(''a.com'', Sending ''Data from a.com'')], out = [], closes = 1,
       stdout = [''Cancelled: context deadline exceeded''], consumer = Receiving\<rparr> =
     Some \<lparr>urls = [''a.com''], ctx = Some DeadlineExceeded, agg = Returned,
       workers = [(''a.com'', Sending ''Data from a.com'')], out = [], closes = 1,
       stdout = [''Cancelled: context deadline exceeded''], consumer = Receiving\<rparr> \<or>
     step e \<lparr>urls = [''a.com''], ctx = Some DeadlineExceeded, agg = Returned,
       workers = [(''a.com'', Sending ''Data from a.com'')], out = [], closes = 1,
       stdout = [''Cancelled: context deadline exceeded''], consumer = Receiving\<rparr> =
     Some \<lparr>urls = [''a.com''], ctx = Some DeadlineExceeded, agg = Returned,
       workers = [(''a.com'', Sending ''Data from a.com'')], out = [], closes = 1,
       stdout = [''Cancelled: context deadline exceeded''], consumer = Absent\<rparr>"
    by (cases e) (auto simp: cancel_def nth_Cons' split: if_splits)
next
  fix e
  show "step e \<lparr>urls = [''a.com''], ctx = Some DeadlineExceeded, agg = Returned,
       workers = [(''a.com'', Sending ''Data from a.com'')], out = [], closes = 1,
       stdout = [''Cancelled: context deadline exceeded''], consumer = Absent\<rparr> = None \<or>
     step e \<lparr>urls = [''a.com''], ctx = Some DeadlineExceeded, agg = Returned,
       workers = [(''a.com'', Sending ''Data from a.com'')], out = [], closes = 1,
       stdout = [''Cancelled: context deadline exceeded''], consumer = Absent\<rparr> =
     Some \<lparr>urls = [''a.com''], ctx = Some DeadlineExceeded, agg = Returned,
       workers = [(''a.com'', Sending ''Data from a.com'')], out = [], closes = 1,
       stdout = [''Cancelled: context deadline exceeded''], consumer = Absent\<rparr>"
    by (cases e) (auto simp: cancel_def nth_Cons' split: if_splits)
qed (simp_all add: fanout_fetch_def cancel_def payload_def live_goroutines_def)

end
